theory Spec2Isabelle
  imports Main "HOL-Library.Word" "HOL-Library.Monad_Syntax"
begin

section \<open>Data model of \<^verbatim>\<open>carla/sensor/s11n/LidarData.h\<close>\<close>

text \<open>
  A \<^verbatim>\<open>float\<close> is represented by its 32-bit pattern (the class asserts statically that
  \<^verbatim>\<open>sizeof(float) == sizeof(uint32_t)\<close>). The code only stores and copies floats, it never
  computes with them, so the bit pattern is all that matters; NaNs and infinities are
  bit patterns like any other.
\<close>

type_synonym float32 = "32 word"
type_synonym uint32 = "32 word"

text \<open>\<^verbatim>\<open>geom::Location\<close> is declared outside this file; only its three float members are used.\<close>

record Location =
  loc_x :: float32
  loc_y :: float32
  loc_z :: float32

record LidarDetection =
  point :: Location
  intensity :: float32

text \<open>
  The members of \<^verbatim>\<open>class LidarData\<close>. The constructor does not initialise
  \<^verbatim>\<open>_max_channel_points\<close>: it is \<open>None\<close> until \<^verbatim>\<open>Reset\<close> stores a hint. The member is
  only ever passed to \<^verbatim>\<open>reserve\<close>. The capacity of a vector is not part of its contents
  and is not modelled, and memory allocation is taken to succeed.
\<close>

record LidarData =
  header :: "uint32 list"
  aux_points :: "LidarDetection list list"
  max_channel_points :: "uint32 option"
  points :: "float32 list"

section \<open>Operations\<close>

text \<open>
  Every operation returns \<open>None\<close> where the C++ has no defined result: an index past the
  end of a vector, or a failed \<^verbatim>\<open>DEBUG_ASSERT\<close>.
\<close>

text \<open>
  \<^verbatim>\<open>SetHorizontalAngle\<close> copies the four bytes of the float into header word 0 with
  \<^verbatim>\<open>memcpy\<close>, and \<^verbatim>\<open>GetHorizontalAngle\<close> reads the four bytes of header word 0 as a float
  through \<^verbatim>\<open>reinterpret_cast\<close>. On bit patterns both are the identity.
\<close>

text \<open>\<^verbatim>\<open>_header(Index::SIZE + ChannelCount, 0u)\<close>, then \<^verbatim>\<open>_header[Index::ChannelCount] = ChannelCount\<close>.
  The sum is computed in \<^verbatim>\<open>size_t\<close>, so it does not wrap.\<close>

definition LidarData_ctor :: "uint32 \<Rightarrow> LidarData" where
  "LidarData_ctor ChannelCount =
     \<lparr>header = (replicate (2 + unat ChannelCount) 0)[1 := ChannelCount],
      aux_points = [],
      max_channel_points = None,
      points = []\<rparr>"

definition GetHorizontalAngle :: "LidarData \<Rightarrow> float32 option" where
  "GetHorizontalAngle d = (if 0 < length (header d) then Some (header d ! 0) else None)"

definition SetHorizontalAngle :: "float32 \<Rightarrow> LidarData \<Rightarrow> LidarData option" where
  "SetHorizontalAngle angle d =
     (if 0 < length (header d) then Some (d\<lparr>header := (header d)[0 := angle]\<rparr>) else None)"

definition GetChannelCount :: "LidarData \<Rightarrow> uint32 option" where
  "GetChannelCount d = (if 1 < length (header d) then Some (header d ! 1) else None)"

text \<open>\<^verbatim>\<open>std::memset(p + off, 0, sizeof(uint32_t) * n)\<close> on a vector of 32-bit words.\<close>

definition memset_zero :: "uint32 list \<Rightarrow> nat \<Rightarrow> nat \<Rightarrow> uint32 list option" where
  "memset_zero ws off n =
     (if off + n \<le> length ws then Some (take off ws @ replicate n 0 @ drop (off + n) ws)
      else None)"

text \<open>\<^verbatim>\<open>std::vector::resize(n)\<close>: truncate, or extend with copies of the default element \<open>v\<close>.\<close>

definition resize :: "nat \<Rightarrow> 'a \<Rightarrow> 'a list \<Rightarrow> 'a list" where
  "resize n v xs = take n xs @ replicate (n - length xs) v"

text \<open>
  \<^verbatim>\<open>Reset\<close>: the count words are zeroed, the hint is stored, the staging array is resized to
  the channel count, and every staging buffer is cleared (and its capacity reserved).
\<close>

definition Reset :: "uint32 \<Rightarrow> LidarData \<Rightarrow> LidarData option" where
  "Reset channel_point_count d = do {
     n \<leftarrow> GetChannelCount d;
     h \<leftarrow> memset_zero (header d) 2 (unat n);
     let d1 = d\<lparr>header := h, max_channel_points := Some channel_point_count\<rparr>;
     m \<leftarrow> GetChannelCount d1;
     Some (d1\<lparr>aux_points := map (\<lambda>aux. []) (resize (unat m) [] (aux_points d1))\<rparr>)
   }"

text \<open>
  \<^verbatim>\<open>DEBUG_ASSERT(GetChannelCount() > channel)\<close>, then \<^verbatim>\<open>_aux_points[channel].emplace_back\<close>.
  A failed assertion and an index past the end of \<^verbatim>\<open>_aux_points\<close> both give \<open>None\<close>. (A
  release build compiles the assertion out; the two builds differ only where the index is
  not below the channel count.)
\<close>

definition WritePointAsync :: "uint32 \<Rightarrow> LidarDetection \<Rightarrow> LidarData \<Rightarrow> LidarData option" where
  "WritePointAsync channel detection d = do {
     n \<leftarrow> GetChannelCount d;
     if \<not> n > channel then None
     else if unat channel < length (aux_points d)
     then Some (d\<lparr>aux_points :=
                  (aux_points d)[unat channel := aux_points d ! unat channel @ [detection]]\<rparr>)
     else None
   }"

text \<open>The body of the inner loop of \<^verbatim>\<open>SaveDetections\<close>: four \<^verbatim>\<open>emplace_back\<close> calls.\<close>

definition emplace_detection :: "float32 list \<Rightarrow> LidarDetection \<Rightarrow> float32 list" where
  "emplace_detection ps pt =
     (((ps @ [loc_x (point pt)]) @ [loc_y (point pt)]) @ [loc_z (point pt)]) @ [intensity pt]"

text \<open>
  The outer loop of \<^verbatim>\<open>SaveDetections\<close>, from \<^verbatim>\<open>idxChannel\<close> on. The bound
  \<^verbatim>\<open>GetChannelCount()\<close> is read again at every iteration, and the word written into the
  header is \<^verbatim>\<open>static_cast<uint32_t>(_aux_points.size())\<close>.
\<close>

function SaveDetections_loop :: "uint32 \<Rightarrow> LidarData \<Rightarrow> LidarData option" where
  "SaveDetections_loop idxChannel d =
     (case GetChannelCount d of
        None \<Rightarrow> None
      | Some n \<Rightarrow>
          if idxChannel < n then
            if 2 + unat idxChannel < length (header d) \<and> unat idxChannel < length (aux_points d)
            then SaveDetections_loop (idxChannel + 1)
                   (d\<lparr>header := (header d)[2 + unat idxChannel := of_nat (length (aux_points d))],
                      points := foldl emplace_detection (points d) (aux_points d ! unat idxChannel)\<rparr>)
            else None
          else Some d)"
  by pat_completeness auto
termination
proof (relation "measure (\<lambda>(i, d). case GetChannelCount d of None \<Rightarrow> 0 | Some n \<Rightarrow> unat n - unat i)")
  show "wf (measure (\<lambda>(i, d). case GetChannelCount d of None \<Rightarrow> 0 | Some n \<Rightarrow> unat n - unat i))"
    by simp
next
  fix idxChannel :: uint32 and d :: LidarData and n :: uint32
  assume n: "GetChannelCount d = Some n" and lt: "idxChannel < n"
    and rng: "2 + unat idxChannel < length (header d) \<and> unat idxChannel < length (aux_points d)"
  let ?d = "d\<lparr>header := (header d)[2 + unat idxChannel := of_nat (length (aux_points d))],
              points := foldl emplace_detection (points d) (aux_points d ! unat idxChannel)\<rparr>"
  have "GetChannelCount ?d = Some n"
    using n by (simp add: GetChannelCount_def split: if_splits)
  moreover have "unat (idxChannel + 1) = Suc (unat idxChannel)"
    using lt by unat_arith
  moreover have "unat idxChannel < unat n"
    using lt by (simp add: word_less_nat_alt)
  ultimately show "((idxChannel + 1, ?d), (idxChannel, d))
      \<in> measure (\<lambda>(i, d). case GetChannelCount d of None \<Rightarrow> 0 | Some n \<Rightarrow> unat n - unat i)"
    using n by simp
qed

text \<open>\<^verbatim>\<open>_points.clear()\<close>, a \<^verbatim>\<open>reserve\<close> (capacity only), then the loop from channel 0
  (\<^verbatim>\<open>auto idxChannel = 0u\<close>, a 32-bit unsigned index).\<close>

definition SaveDetections :: "LidarData \<Rightarrow> LidarData option" where
  "SaveDetections d = SaveDetections_loop 0 (d\<lparr>points := []\<rparr>)"

section \<open>Sequences of calls\<close>

text \<open>A caller's use of an accumulator is a list of calls, run in order; the run has no
  defined result as soon as one call has none.\<close>

datatype call =
    CallSetHorizontalAngle float32
  | CallReset uint32
  | CallWritePointAsync uint32 LidarDetection
  | CallSaveDetections

fun step :: "call \<Rightarrow> LidarData \<Rightarrow> LidarData option" where
  "step (CallSetHorizontalAngle angle) d = SetHorizontalAngle angle d"
| "step (CallReset channel_point_count) d = Reset channel_point_count d"
| "step (CallWritePointAsync channel detection) d = WritePointAsync channel detection d"
| "step CallSaveDetections d = SaveDetections d"

fun run :: "call list \<Rightarrow> LidarData \<Rightarrow> LidarData option" where
  "run [] d = Some d"
| "run (c # cs) d = (case step c d of None \<Rightarrow> None | Some d' \<Rightarrow> run cs d')"

fun is_Reset :: "call \<Rightarrow> bool" where
  "is_Reset (CallReset h) = True"
| "is_Reset c = False"

section \<open>Text export of a detection\<close>

text \<open>
  An output stream is the text written to it so far. How \<^verbatim>\<open>operator<<\<close> renders a float
  depends on the stream's flags, precision and locale, which this file does not set: the
  rendering is a parameter \<open>fmt\<close> (with the default field width 0, so that nothing is padded).
\<close>

type_synonym ostream = string

definition put_float :: "(float32 \<Rightarrow> string) \<Rightarrow> ostream \<Rightarrow> float32 \<Rightarrow> ostream" where
  "put_float fmt out v = out @ fmt v"

definition put_char :: "ostream \<Rightarrow> char \<Rightarrow> ostream" where
  "put_char out c = out @ [c]"

text \<open>\<^verbatim>\<open>out << point.x << ' ' << point.y << ' ' << point.z << ' ' << intensity\<close>,
  associated to the left as in C++.\<close>

definition WriteDetection :: "(float32 \<Rightarrow> string) \<Rightarrow> LidarDetection \<Rightarrow> ostream \<Rightarrow> ostream" where
  "WriteDetection fmt det out =
     put_float fmt
       (put_char
         (put_float fmt
           (put_char
             (put_float fmt
               (put_char
                 (put_float fmt out (loc_x (point det)))
                 CHR '' '')
               (loc_y (point det)))
             CHR '' '')
           (loc_z (point det)))
         CHR '' '')
       (intensity det)"

section \<open>Notions used to state the properties\<close>

text \<open>The four scalars of a detection, in the order of the documented point layout.\<close>

definition detection_floats :: "LidarDetection \<Rightarrow> float32 list" where
  "detection_floats pt = [loc_x (point pt), loc_y (point pt), loc_z (point pt), intensity pt]"

text \<open>The appends among a list of calls, in call order, and those of them made to one channel.\<close>

fun appends_of :: "call list \<Rightarrow> (uint32 \<times> LidarDetection) list" where
  "appends_of [] = []"
| "appends_of (CallWritePointAsync channel detection # cs) = (channel, detection) # appends_of cs"
| "appends_of (c # cs) = appends_of cs"

definition channel_detections :: "(uint32 \<times> LidarDetection) list \<Rightarrow> uint32 \<Rightarrow> LidarDetection list" where
  "channel_detections aps c = map snd (filter (\<lambda>a. fst a = c) aps)"

text \<open>The per-channel point counts of the header: the words from index 2 on.\<close>

definition channel_counts :: "LidarData \<Rightarrow> uint32 list" where
  "channel_counts d = drop 2 (header d)"

text \<open>The fields of a text, separated by the character \<open>c\<close>: a trailing or a doubled
  separator shows as an empty field.\<close>

fun fields :: "char \<Rightarrow> string \<Rightarrow> string list" where
  "fields c [] = [ [] ]"
| "fields c (a # as) =
     (if a = c then [] # fields c as
      else (case fields c as of [] \<Rightarrow> [ [a] ] | f # fs \<Rightarrow> (a # f) # fs))"

text \<open>What every accumulator built with channel count \<open>N\<close> satisfies, whatever calls follow.\<close>

definition lidar_inv :: "uint32 \<Rightarrow> LidarData \<Rightarrow> bool" where
  "lidar_inv N d \<longleftrightarrow>
     length (header d) = 2 + unat N \<and> header d ! 1 = N \<and>
     (aux_points d = [] \<or> length (aux_points d) = unat N)"

section \<open>The scenario of the specification\<close>

text \<open>
  Two channels; after \<^verbatim>\<open>Reset(10)\<close>, the detections \<open>(1, 2, 3, 0.5)\<close> and \<open>(7, 8, 9, 0.1)\<close> are
  appended to channel 0 and \<open>(4, 5, 6, 0.9)\<close> to channel 1, in the order 0, 1, 0; then
  \<^verbatim>\<open>SaveDetections\<close>. The floats are written as their IEEE-754 single-precision bit patterns.
\<close>

definition scenario_appends :: "call list" where
  "scenario_appends =
     [CallWritePointAsync 0 \<lparr>point = \<lparr>loc_x = 0x3F800000, loc_y = 0x40000000, loc_z = 0x40400000\<rparr>, intensity = 0x3F000000\<rparr>,
      CallWritePointAsync 1 \<lparr>point = \<lparr>loc_x = 0x40800000, loc_y = 0x40A00000, loc_z = 0x40C00000\<rparr>, intensity = 0x3F666666\<rparr>,
      CallWritePointAsync 0 \<lparr>point = \<lparr>loc_x = 0x40E00000, loc_y = 0x41000000, loc_z = 0x41100000\<rparr>, intensity = 0x3DCCCCCD\<rparr>]"

definition scenario_calls :: "call list" where
  "scenario_calls = CallReset 10 # scenario_appends @ [CallSaveDetections]"

section \<open>The two loops of \<^verbatim>\<open>SaveDetections\<close> in closed form\<close>

lemma foldl_emplace_detection:
  "foldl emplace_detection ps xs = ps @ concat (map detection_floats xs)"
  by (induction xs arbitrary: ps) (simp_all add: emplace_detection_def detection_floats_def)

lemma unat_succ_less: "(i::uint32) < n \<Longrightarrow> unat (i + 1) = Suc (unat i)"
  by unat_arith

lemma take_Suc_update: "k < length xs \<Longrightarrow> take (Suc k) (xs[k := v]) = take k xs @ [v]"
  by (simp add: take_Suc_conv_app_nth)

lemma SaveDetections_loop_closed:
  assumes "length (header d) = 2 + unat n" and "header d ! 1 = n"
    and "length (aux_points d) = unat n" and "i \<le> n"
  shows "SaveDetections_loop i d =
    Some (d\<lparr>header := take (2 + unat i) (header d) @ replicate (unat n - unat i) (of_nat (unat n)),
            points := points d @ concat (map (\<lambda>ch. concat (map detection_floats ch)) (drop (unat i) (aux_points d)))\<rparr>)"
  using assms
proof (induction i d rule: SaveDetections_loop.induct)
  case (1 i d)
  have gc: "GetChannelCount d = Some n"
    using "1.prems" by (simp add: GetChannelCount_def)
  show ?case
  proof (cases "i < n")
    case False
    with "1.prems" have "i = n" by simp
    then show ?thesis
      using "1.prems" gc by (subst SaveDetections_loop.simps) simp
  next
    case True
    then have lt: "unat i < unat n" by (simp add: word_less_nat_alt)
    have suc: "unat (i + 1) = Suc (unat i)" using True by (rule unat_succ_less)
    have le: "i + 1 \<le> n" using True by (rule inc_le)
    let ?d = "d\<lparr>header := (header d)[2 + unat i := of_nat (length (aux_points d))],
                points := foldl emplace_detection (points d) (aux_points d ! unat i)\<rparr>"
    have rng: "2 + unat i < length (header d) \<and> unat i < length (aux_points d)"
      using "1.prems" lt by simp
    have ih: "SaveDetections_loop (i + 1) ?d =
      Some (?d\<lparr>header := take (2 + unat (i + 1)) (header ?d) @ replicate (unat n - unat (i + 1)) (of_nat (unat n)),
            points := points ?d @ concat (map (\<lambda>ch. concat (map detection_floats ch)) (drop (unat (i + 1)) (aux_points ?d)))\<rparr>)"
      using "1.prems" lt le by (intro "1.IH"[OF gc True rng]) simp_all
    have h: "take (2 + unat (i + 1)) (header ?d) @ replicate (unat n - unat (i + 1)) (of_nat (unat n))
        = take (2 + unat i) (header d) @ replicate (unat n - unat i) (of_nat (unat n))"
    proof -
      have "take (Suc (2 + unat i)) ((header d)[2 + unat i := of_nat (unat n)]) = take (2 + unat i) (header d) @ [of_nat (unat n)]"
        using rng by (intro take_Suc_update) simp
      moreover have "replicate (unat n - unat i) (of_nat (unat n) :: uint32) = of_nat (unat n) # replicate (unat n - Suc (unat i)) (of_nat (unat n))"
        using lt by (cases "unat n - unat i") (simp_all add: Suc_diff_Suc)
      ultimately show ?thesis using "1.prems" suc by simp
    qed
    have p: "points ?d @ concat (map (\<lambda>ch. concat (map detection_floats ch)) (drop (unat (i + 1)) (aux_points ?d)))
       = points d @ concat (map (\<lambda>ch. concat (map detection_floats ch)) (drop (unat i) (aux_points d)))"
      using rng suc by (simp add: foldl_emplace_detection Cons_nth_drop_Suc[symmetric])
    have "SaveDetections_loop i d = SaveDetections_loop (i + 1) ?d"
      using gc True rng by (subst SaveDetections_loop.simps) simp
    then show ?thesis
      unfolding ih h p by simp
  qed
qed

lemma SaveDetections_closed:
  assumes "lidar_inv N d" and "length (aux_points d) = unat N"
  shows "SaveDetections d =
    Some (d\<lparr>header := take 2 (header d) @ replicate (unat N) N,
            points := concat (map (\<lambda>ch. concat (map detection_floats ch)) (aux_points d))\<rparr>)"
proof -
  have "SaveDetections_loop 0 (d\<lparr>points := []\<rparr>) =
    Some (d\<lparr>points := []\<rparr>\<lparr>header := take (2 + unat (0::uint32)) (header (d\<lparr>points := []\<rparr>))
              @ replicate (unat N - unat (0::uint32)) (of_nat (unat N)),
            points := points (d\<lparr>points := []\<rparr>)
              @ concat (map (\<lambda>ch. concat (map detection_floats ch)) (drop (unat (0::uint32)) (aux_points (d\<lparr>points := []\<rparr>))))\<rparr>)"
    using assms by (intro SaveDetections_loop_closed) (simp_all add: lidar_inv_def)
  then show ?thesis
    by (simp add: SaveDetections_def)
qed

lemma SaveDetections_unsized:
  assumes "lidar_inv N d" and "aux_points d = []" and "N \<noteq> 0"
  shows "SaveDetections d = None"
proof -
  have "0 < N" using assms(3) by (simp add: word_gt_0)
  then show ?thesis
    using assms(1,2)
    by (subst SaveDetections_def, subst SaveDetections_loop.simps)
       (simp add: lidar_inv_def GetChannelCount_def)
qed

section \<open>\<^verbatim>\<open>Reset\<close> in closed form, and the class invariant\<close>

lemma Reset_closed:
  assumes "lidar_inv N d"
  shows "Reset h d =
    Some (d\<lparr>header := take 2 (header d) @ replicate (unat N) 0,
            max_channel_points := Some h,
            aux_points := replicate (unat N) []\<rparr>)"
proof -
  have len: "length (header d) = 2 + unat N" and n: "header d ! 1 = N"
    using assms by (simp_all add: lidar_inv_def)
  have gc: "GetChannelCount d = Some N"
    using len n by (simp add: GetChannelCount_def)
  have ms: "memset_zero (header d) 2 (unat N) = Some (take 2 (header d) @ replicate (unat N) 0)"
    using len by (simp add: memset_zero_def)
  have n': "(take 2 (header d) @ replicate (unat N) 0) ! 1 = N"
    using len n by (simp add: nth_append)
  have rs: "map (\<lambda>aux. []) (resize (unat N) [] (aux_points d)) = replicate (unat N) ([] :: LidarDetection list)"
  proof -
    have "map (\<lambda>aux. []) (resize (unat N) [] (aux_points d))
        = replicate (min (length (aux_points d)) (unat N) + (unat N - length (aux_points d))) ([] :: LidarDetection list)"
      by (simp add: resize_def map_replicate_const replicate_add)
    moreover have "min (length (aux_points d)) (unat N) + (unat N - length (aux_points d)) = unat N"
      by arith
    ultimately show ?thesis by simp
  qed
  show ?thesis
    unfolding Reset_def gc ms Option.bind.simps Let_def
    using len n' by (simp add: GetChannelCount_def rs)
qed

lemma lidar_inv_ctor: "lidar_inv N (LidarData_ctor N)"
  by (simp add: lidar_inv_def LidarData_ctor_def)

lemma lidar_inv_SetHorizontalAngle:
  "lidar_inv N d \<Longrightarrow> SetHorizontalAngle a d = Some d' \<Longrightarrow> lidar_inv N d'"
  by (auto simp: lidar_inv_def SetHorizontalAngle_def split: if_splits)

lemma lidar_inv_Reset:
  "lidar_inv N d \<Longrightarrow> Reset h d = Some d' \<Longrightarrow> lidar_inv N d'"
  by (auto simp: Reset_closed) (auto simp: lidar_inv_def nth_append)

lemma lidar_inv_WritePointAsync:
  "lidar_inv N d \<Longrightarrow> WritePointAsync c pt d = Some d' \<Longrightarrow> lidar_inv N d'"
  by (auto simp: lidar_inv_def WritePointAsync_def GetChannelCount_def split: if_splits)

lemma lidar_inv_SaveDetections:
  assumes "lidar_inv N d" and "SaveDetections d = Some d'"
  shows "lidar_inv N d'"
proof (cases "length (aux_points d) = unat N")
  case True
  then show ?thesis
    using assms by (auto simp: SaveDetections_closed) (auto simp: lidar_inv_def nth_append)
next
  case False
  then have "aux_points d = []" and "N \<noteq> 0"
    using assms(1) by (auto simp: lidar_inv_def)
  then show ?thesis
    using assms SaveDetections_unsized by simp
qed

lemma lidar_inv_step: "lidar_inv N d \<Longrightarrow> step c d = Some d' \<Longrightarrow> lidar_inv N d'"
  by (cases c)
     (auto intro: lidar_inv_SetHorizontalAngle lidar_inv_Reset lidar_inv_WritePointAsync
        lidar_inv_SaveDetections)

lemma lidar_inv_run: "lidar_inv N d \<Longrightarrow> run cs d = Some d' \<Longrightarrow> lidar_inv N d'"
proof (induction cs arbitrary: d)
  case Nil
  then show ?case by simp
next
  case (Cons c cs)
  then show ?case
    by (auto split: option.splits dest: lidar_inv_step)
qed

lemma run_append: "run (cs @ cs') d = (case run cs d of None \<Rightarrow> None | Some d' \<Rightarrow> run cs' d')"
  by (induction cs arbitrary: d) (simp_all split: option.splits)

lemma run_reachable_inv: "run cs (LidarData_ctor N) = Some d \<Longrightarrow> lidar_inv N d"
  using lidar_inv_ctor by (rule lidar_inv_run)

lemma step_aux_length:
  assumes "lidar_inv N d" and "step c d = Some d'"
  shows "length (aux_points d') = (if is_Reset c then unat N else length (aux_points d))"
proof (cases c)
  case (CallSetHorizontalAngle a)
  then show ?thesis using assms(2) by (auto simp: SetHorizontalAngle_def split: if_splits)
next
  case (CallReset h)
  then show ?thesis using assms by (auto simp: Reset_closed)
next
  case (CallWritePointAsync ch pt)
  then show ?thesis
    using assms(2) by (auto simp: WritePointAsync_def split: if_splits Option.bind_splits)
next
  case CallSaveDetections
  show ?thesis
  proof (cases "length (aux_points d) = unat N")
    case True
    then show ?thesis
      using assms CallSaveDetections by (auto simp: SaveDetections_closed)
  next
    case False
    then have "aux_points d = []" and "N \<noteq> 0"
      using assms(1) by (auto simp: lidar_inv_def)
    then show ?thesis
      using assms CallSaveDetections SaveDetections_unsized by simp
  qed
qed

lemma run_aux_length:
  assumes "lidar_inv N d" and "run cs d = Some d'"
  shows "length (aux_points d') = (if \<exists>c\<in>set cs. is_Reset c then unat N else length (aux_points d))"
  using assms
proof (induction cs arbitrary: d)
  case Nil
  then show ?case by simp
next
  case (Cons c cs)
  from Cons.prems(2) obtain d1 where s: "step c d = Some d1" and r: "run cs d1 = Some d'"
    by (auto split: option.splits)
  have inv1: "lidar_inv N d1" using Cons.prems(1) s by (rule lidar_inv_step)
  have l1: "length (aux_points d1) = (if is_Reset c then unat N else length (aux_points d))"
    using Cons.prems(1) s by (rule step_aux_length)
  show ?case
    using Cons.IH[OF inv1 r] l1 by auto
qed

lemma WritePointAsync_sized:
  assumes "lidar_inv N d" and "length (aux_points d) = unat N" and "channel < N"
  shows "WritePointAsync channel detection d =
    Some (d\<lparr>aux_points := (aux_points d)[unat channel := aux_points d ! unat channel @ [detection]]\<rparr>)"
proof -
  have "GetChannelCount d = Some N"
    using assms(1) by (simp add: lidar_inv_def GetChannelCount_def)
  moreover have "unat channel < length (aux_points d)"
    using assms(2,3) by (simp add: word_less_nat_alt)
  ultimately show ?thesis
    using assms(3) by (simp add: WritePointAsync_def)
qed

section \<open>Construction, channel count and angle\<close>

text \<open>
  Claim C6. For every channel count \<open>N\<close>, the freshly constructed accumulator has a header
  of exactly \<open>2 + N\<close> words; word 0 (the angle) is zero, word 1 is \<open>N\<close>, the \<open>N\<close>
  per-channel count words are zero, and \<^verbatim>\<open>GetChannelCount()\<close> returns \<open>N\<close>.
\<close>

theorem fresh_accumulator:
  "length (header (LidarData_ctor N)) = 2 + unat N \<and>
   header (LidarData_ctor N) ! 0 = 0 \<and>
   header (LidarData_ctor N) ! 1 = N \<and>
   channel_counts (LidarData_ctor N) = replicate (unat N) 0 \<and>
   GetChannelCount (LidarData_ctor N) = Some N"
  by (simp add: LidarData_ctor_def channel_counts_def GetChannelCount_def drop_update_cancel)

text \<open>
  Claim C8. Whatever calls to \<^verbatim>\<open>SetHorizontalAngle\<close>, \<^verbatim>\<open>Reset\<close>, \<^verbatim>\<open>WritePointAsync\<close> and
  \<^verbatim>\<open>SaveDetections\<close> follow the construction with channel count \<open>N\<close>, header word 1 is
  still \<open>N\<close> and \<^verbatim>\<open>GetChannelCount()\<close> returns \<open>N\<close>.
\<close>

theorem channel_count_immutable:
  assumes "run cs (LidarData_ctor N) = Some d"
  shows "header d ! 1 = N \<and> GetChannelCount d = Some N"
  using run_reachable_inv[OF assms] by (simp add: lidar_inv_def GetChannelCount_def)

theorem channel_count_immutable_witness:
  "\<exists>d. run (CallSetHorizontalAngle 0x42B40000 # scenario_calls) (LidarData_ctor 2) = Some d \<and>
       header d ! 1 = 2 \<and> GetChannelCount d = Some 2"
proof -
  have "run (CallSetHorizontalAngle 0x42B40000 # scenario_calls) (LidarData_ctor 2) \<noteq> None"
    by code_simp
  then obtain d where r: "run (CallSetHorizontalAngle 0x42B40000 # scenario_calls) (LidarData_ctor 2) = Some d"
    by blast
  show ?thesis
    using r channel_count_immutable[OF r] by simp
qed

text \<open>
  Claim C4. On any accumulator, \<^verbatim>\<open>SetHorizontalAngle(f)\<close> stores the bit pattern of \<open>f\<close>
  in header word 0 as it is, and \<^verbatim>\<open>GetHorizontalAngle()\<close> then returns it unchanged, for every
  32-bit pattern \<open>f\<close>, those of NaNs and infinities included. The instance below uses the
  quiet NaN \<open>0x7FC00000\<close>.
\<close>

theorem horizontal_angle_round_trip:
  assumes "run cs (LidarData_ctor N) = Some d"
  shows "\<exists>d'. SetHorizontalAngle f d = Some d' \<and> header d' ! 0 = f \<and>
              GetHorizontalAngle d' = Some f"
proof -
  have "length (header d) = 2 + unat N"
    using run_reachable_inv[OF assms] by (simp add: lidar_inv_def)
  then have "0 < length (header d)" by simp
  then show ?thesis
    by (simp add: SetHorizontalAngle_def GetHorizontalAngle_def)
qed

theorem horizontal_angle_round_trip_witness:
  "\<exists>d. run [CallReset 10] (LidarData_ctor 2) = Some d \<and>
       (\<exists>d'. SetHorizontalAngle 0x7FC00000 d = Some d' \<and> header d' ! 0 = 0x7FC00000 \<and>
             GetHorizontalAngle d' = Some 0x7FC00000)"
proof -
  have "run [CallReset 10] (LidarData_ctor 2) \<noteq> None"
    by code_simp
  then obtain d where r: "run [CallReset 10] (LidarData_ctor 2) = Some d"
    by blast
  show ?thesis
    using r horizontal_angle_round_trip[OF r, of "0x7FC00000"] by simp
qed

section \<open>Reset\<close>

text \<open>
  Claim C5. In every state an accumulator can be in, \<^verbatim>\<open>Reset(h)\<close> has a defined result in
  which every per-channel count word is zero and the staging array consists of \<open>N\<close> empty
  buffers. Another hint \<open>h'\<close> gives the same state but for the recorded hint
  \<^verbatim>\<open>_max_channel_points\<close>.
\<close>

theorem Reset_clears:
  assumes "run cs (LidarData_ctor N) = Some d"
  shows "\<exists>d'. Reset h d = Some d' \<and>
           channel_counts d' = replicate (unat N) 0 \<and>
           aux_points d' = replicate (unat N) [] \<and>
           Reset h' d = Some (d'\<lparr>max_channel_points := Some h'\<rparr>)"
proof -
  have inv: "lidar_inv N d" using assms by (rule run_reachable_inv)
  then have "length (header d) = 2 + unat N" by (simp add: lidar_inv_def)
  then show ?thesis
    by (simp add: Reset_closed[OF inv] channel_counts_def)
qed

theorem Reset_clears_witness:
  "\<exists>d. run scenario_calls (LidarData_ctor 2) = Some d \<and> channel_counts d = [2, 2] \<and>
       (\<exists>d'. Reset 7 d = Some d' \<and> channel_counts d' = [0, 0] \<and> aux_points d' = [ [], [] ] \<and>
             Reset 9 d = Some (d'\<lparr>max_channel_points := Some 9\<rparr>))"
proof -
  have "map_option channel_counts (run scenario_calls (LidarData_ctor 2)) = Some [2, 2]"
    by code_simp
  then obtain d where r: "run scenario_calls (LidarData_ctor 2) = Some d" and c: "channel_counts d = [2, 2]"
    by blast
  have "replicate (unat (2::uint32)) (0::uint32) = [0, 0]"
    and "replicate (unat (2::uint32)) ([]::LidarDetection list) = [ [], [] ]"
    by code_simp+
  then show ?thesis
    using r c Reset_clears[OF r, of 7 9] by simp
qed

text \<open>
  Claim C10. The constructor leaves the staging array empty. As long as no \<^verbatim>\<open>Reset\<close> has
  been called, it stays empty, and \<^verbatim>\<open>WritePointAsync\<close> with a channel index below the
  channel count indexes past its end. Once a \<^verbatim>\<open>Reset\<close> has been called, the staging array
  has exactly \<open>N\<close> buffers, and \<^verbatim>\<open>WritePointAsync\<close> with such an index is defined.
\<close>

theorem staging_array_sized_by_Reset:
  assumes "run cs (LidarData_ctor N) = Some d" and "channel < N"
  shows "if \<exists>c\<in>set cs. is_Reset c
         then length (aux_points d) = unat N \<and> (\<exists>d'. WritePointAsync channel detection d = Some d')
         else aux_points d = [] \<and> WritePointAsync channel detection d = None"
proof -
  have inv: "lidar_inv N d" using assms(1) by (rule run_reachable_inv)
  have len: "length (aux_points d) = (if \<exists>c\<in>set cs. is_Reset c then unat N else 0)"
    using run_aux_length[OF lidar_inv_ctor assms(1)] by (simp add: LidarData_ctor_def)
  show ?thesis
  proof (cases "\<exists>c\<in>set cs. is_Reset c")
    case True
    then have "length (aux_points d) = unat N" using len by simp
    then show ?thesis
      using True WritePointAsync_sized[OF inv _ assms(2)] by simp
  next
    case False
    then have "aux_points d = []" using len by simp
    then show ?thesis
      using False by (simp add: WritePointAsync_def split: Option.bind_splits)
  qed
qed

theorem staging_array_sized_by_Reset_witness:
  "(\<exists>d. run [] (LidarData_ctor 2) = Some d \<and> aux_points d = [] \<and>
        WritePointAsync 1 \<lparr>point = \<lparr>loc_x = 0, loc_y = 0, loc_z = 0\<rparr>, intensity = 0\<rparr> d = None) \<and>
   (\<exists>d. run [CallReset 10] (LidarData_ctor 2) = Some d \<and> length (aux_points d) = 2 \<and>
        WritePointAsync 1 \<lparr>point = \<lparr>loc_x = 0, loc_y = 0, loc_z = 0\<rparr>, intensity = 0\<rparr> d \<noteq> None)"
proof -
  let ?pt = "\<lparr>point = \<lparr>loc_x = 0, loc_y = 0, loc_z = 0\<rparr>, intensity = 0\<rparr>"
  have lt: "(1::uint32) < 2" by simp
  have r0: "run [] (LidarData_ctor 2) = Some (LidarData_ctor 2)" by simp
  have "run [CallReset 10] (LidarData_ctor 2) \<noteq> None"
    by code_simp
  then obtain d where r1: "run [CallReset 10] (LidarData_ctor 2) = Some d"
    by blast
  have "aux_points (LidarData_ctor 2) = [] \<and> WritePointAsync 1 ?pt (LidarData_ctor 2) = None"
    using staging_array_sized_by_Reset[OF r0 lt, of ?pt] by simp
  moreover have "length (aux_points d) = 2 \<and> WritePointAsync 1 ?pt d \<noteq> None"
    using staging_array_sized_by_Reset[OF r1 lt, of ?pt] by auto
  ultimately show ?thesis
    using r0 r1 by blast
qed

section \<open>Consolidation\<close>

text \<open>
  Claim C7. In every state an accumulator can be in, if \<^verbatim>\<open>SaveDetections\<close> has a defined
  result, then a second call directly after it has one too and leaves the whole
  accumulator, header and flat buffer included, as the first call left it. The first call
  has a defined result whenever a \<^verbatim>\<open>Reset\<close> has been called before.
\<close>

theorem SaveDetections_idempotent:
  assumes "run cs (LidarData_ctor N) = Some d"
  shows "((\<exists>c\<in>set cs. is_Reset c) \<longrightarrow> (\<exists>d1. SaveDetections d = Some d1)) \<and>
         (\<forall>d1. SaveDetections d = Some d1 \<longrightarrow> SaveDetections d1 = Some d1)"
proof -
  have inv: "lidar_inv N d" using assms by (rule run_reachable_inv)
  have len: "length (aux_points d) = (if \<exists>c\<in>set cs. is_Reset c then unat N else 0)"
    using run_aux_length[OF lidar_inv_ctor assms] by (simp add: LidarData_ctor_def)
  have sized: "length (aux_points d) = unat N \<Longrightarrow> SaveDetections d = Some d1 \<Longrightarrow> SaveDetections d1 = Some d1" for d1
  proof -
    assume l: "length (aux_points d) = unat N" and s: "SaveDetections d = Some d1"
    have d1: "d1 = d\<lparr>header := take 2 (header d) @ replicate (unat N) N,
            points := concat (map (\<lambda>ch. concat (map detection_floats ch)) (aux_points d))\<rparr>"
      using s SaveDetections_closed[OF inv l] by simp
    have inv1: "lidar_inv N d1" using inv s by (rule lidar_inv_SaveDetections)
    have l1: "length (aux_points d1) = unat N" using l d1 by simp
    have h: "length (header d) = 2 + unat N" using inv by (simp add: lidar_inv_def)
    show ?thesis
      unfolding SaveDetections_closed[OF inv1 l1] using h by (simp add: d1)
  qed
  have unsized: "SaveDetections d = None" if "length (aux_points d) \<noteq> unat N"
  proof -
    from that inv have "aux_points d = []" by (auto simp: lidar_inv_def)
    moreover from this that have "N \<noteq> 0" by auto
    ultimately show ?thesis using inv by (intro SaveDetections_unsized)
  qed
  have "\<exists>d1. SaveDetections d = Some d1" if "\<exists>c\<in>set cs. is_Reset c"
  proof -
    from that len have "length (aux_points d) = unat N" by simp
    then show ?thesis using SaveDetections_closed[OF inv] by simp
  qed
  moreover have "SaveDetections d1 = Some d1" if "SaveDetections d = Some d1" for d1
    using that sized unsized by (cases "length (aux_points d) = unat N") auto
  ultimately show ?thesis by blast
qed

theorem SaveDetections_idempotent_witness:
  "\<exists>d d1. run (CallReset 10 # scenario_appends) (LidarData_ctor 2) = Some d \<and>
       SaveDetections d = Some d1 \<and> SaveDetections d1 = Some d1"
proof -
  have "run (CallReset 10 # scenario_appends) (LidarData_ctor 2) \<noteq> None"
    by code_simp
  then obtain d where r: "run (CallReset 10 # scenario_appends) (LidarData_ctor 2) = Some d"
    by blast
  have "\<exists>c\<in>set (CallReset 10 # scenario_appends). is_Reset c" by simp
  then show ?thesis
    using r SaveDetections_idempotent[OF r] by blast
qed

subsection \<open>The layout of the flat buffer\<close>

lemma channel_detections_Cons:
  "channel_detections (a # aps) c = (if fst a = c then [snd a] else []) @ channel_detections aps c"
  by (simp add: channel_detections_def)

lemma run_appends:
  assumes "lidar_inv N d" and "length (aux_points d) = unat N"
    and "\<forall>c\<in>set cs. \<not> is_Reset c" and "\<forall>a\<in>set (appends_of cs). fst a < N"
  shows "\<exists>d'. run cs d = Some d' \<and> lidar_inv N d' \<and> length (aux_points d') = unat N \<and>
           (\<forall>c<N. aux_points d' ! unat c = aux_points d ! unat c @ channel_detections (appends_of cs) c)"
  using assms
proof (induction cs arbitrary: d)
  case Nil
  then show ?case by (simp add: channel_detections_def)
next
  case (Cons call cs)
  show ?case
  proof (cases call)
    case (CallSetHorizontalAngle a)
    let ?d = "d\<lparr>header := (header d)[0 := a]\<rparr>"
    have s: "step call d = Some ?d"
      using Cons.prems(1) CallSetHorizontalAngle by (simp add: SetHorizontalAngle_def lidar_inv_def)
    have inv: "lidar_inv N ?d" using Cons.prems(1) s by (rule lidar_inv_step)
    have "\<exists>d'. run cs ?d = Some d' \<and> lidar_inv N d' \<and> length (aux_points d') = unat N \<and>
           (\<forall>c<N. aux_points d' ! unat c = aux_points ?d ! unat c @ channel_detections (appends_of cs) c)"
      using Cons.prems CallSetHorizontalAngle by (intro Cons.IH inv) simp_all
    then show ?thesis
      using s CallSetHorizontalAngle by simp
  next
    case (CallReset h)
    then show ?thesis using Cons.prems(3) by simp
  next
    case (CallWritePointAsync ch pt)
    let ?d = "d\<lparr>aux_points := (aux_points d)[unat ch := aux_points d ! unat ch @ [pt]]\<rparr>"
    have ch: "ch < N" using Cons.prems(4) CallWritePointAsync by simp
    then have chn: "unat ch < length (aux_points d)"
      using Cons.prems(2) by (simp add: word_less_nat_alt)
    have s: "step call d = Some ?d"
      using CallWritePointAsync WritePointAsync_sized[OF Cons.prems(1,2) ch] by simp
    have inv: "lidar_inv N ?d" using Cons.prems(1) s by (rule lidar_inv_step)
    have "\<exists>d'. run cs ?d = Some d' \<and> lidar_inv N d' \<and> length (aux_points d') = unat N \<and>
           (\<forall>c<N. aux_points d' ! unat c = aux_points ?d ! unat c @ channel_detections (appends_of cs) c)"
      using Cons.prems CallWritePointAsync by (intro Cons.IH inv) simp_all
    then obtain d' where r: "run cs ?d = Some d'" and inv': "lidar_inv N d'"
      and len': "length (aux_points d') = unat N"
      and nth': "\<forall>c<N. aux_points d' ! unat c = aux_points ?d ! unat c @ channel_detections (appends_of cs) c"
      by blast
    have "aux_points d' ! unat c = aux_points d ! unat c @ channel_detections (appends_of (call # cs)) c"
      if "c < N" for c
    proof (cases "c = ch")
      case True
      then show ?thesis
        using nth' that chn CallWritePointAsync by (simp add: channel_detections_Cons)
    next
      case False
      then have "unat c \<noteq> unat ch" by (simp add: word_unat_eq_iff)
      then show ?thesis
        using nth' that False CallWritePointAsync by (simp add: channel_detections_Cons)
    qed
    then show ?thesis
      using s r inv' len' by simp
  next
    case CallSaveDetections
    let ?d = "d\<lparr>header := take 2 (header d) @ replicate (unat N) N,
            points := concat (map (\<lambda>ch. concat (map detection_floats ch)) (aux_points d))\<rparr>"
    have s: "step call d = Some ?d"
      using CallSaveDetections SaveDetections_closed[OF Cons.prems(1,2)] by simp
    have inv: "lidar_inv N ?d" using Cons.prems(1) s by (rule lidar_inv_step)
    have "\<exists>d'. run cs ?d = Some d' \<and> lidar_inv N d' \<and> length (aux_points d') = unat N \<and>
           (\<forall>c<N. aux_points d' ! unat c = aux_points ?d ! unat c @ channel_detections (appends_of cs) c)"
      using Cons.prems CallSaveDetections by (intro Cons.IH inv) simp_all
    then show ?thesis
      using s CallSaveDetections by simp
  qed
qed

lemma drop_concat_prefix:
  "i \<le> length yss \<Longrightarrow> drop (\<Sum>j<i. length (yss ! j)) (concat yss) = concat (drop i yss)"
proof (induction yss arbitrary: i)
  case Nil
  then show ?case by simp
next
  case (Cons y yss)
  show ?case
  proof (cases i)
    case 0
    then show ?thesis by simp
  next
    case (Suc k)
    then have "k \<le> length yss" using Cons.prems by simp
    then have "drop (\<Sum>j<k. length (yss ! j)) (concat yss) = concat (drop k yss)"
      by (rule Cons.IH)
    moreover have "(\<Sum>j<Suc k. length ((y # yss) ! j)) = length y + (\<Sum>j<k. length (yss ! j))"
      by (simp add: sum.lessThan_Suc_shift del: sum.lessThan_Suc)
    ultimately show ?thesis
      using Suc by simp
  qed
qed

lemma drop_concat_map_fixed:
  "\<forall>y\<in>set ys. length (f y) = n \<Longrightarrow> drop (n * k) (concat (map f ys)) = concat (map f (drop k ys))"
proof (induction ys arbitrary: k)
  case Nil
  then show ?case by simp
next
  case (Cons y ys)
  then show ?case by (cases k) simp_all
qed

lemma length_concat_map_fixed:
  "\<forall>y\<in>set ys. length (f y) = n \<Longrightarrow> length (concat (map f ys)) = n * length ys"
  by (induction ys) simp_all

lemma length_detection_floats: "length (detection_floats pt) = 4"
  by (simp add: detection_floats_def)

lemma length_channel_floats: "length (concat (map detection_floats ch)) = 4 * length ch"
  by (rule length_concat_map_fixed) (simp add: length_detection_floats)

lemma length_concat_channels:
  "length (concat (map (\<lambda>ch. concat (map detection_floats ch)) xss)) = 4 * sum_list (map length xss)"
  by (induction xss) (simp_all add: length_channel_floats)

lemma nth_record_of_concat:
  assumes "i < length xss" and "k < length (xss ! i)"
  shows "take 4 (drop (4 * (\<Sum>j<i. length (xss ! j)) + 4 * k)
           (concat (map (\<lambda>ch. concat (map detection_floats ch)) xss))) = detection_floats (xss ! i ! k)"
proof -
  let ?F = "\<lambda>ch. concat (map detection_floats ch)"
  let ?yss = "map ?F xss"
  have off: "4 * (\<Sum>j<i. length (xss ! j)) = (\<Sum>j<i. length (?yss ! j))"
    using assms(1) by (simp add: sum_distrib_left length_channel_floats)
  have "drop (4 * (\<Sum>j<i. length (xss ! j)) + 4 * k) (concat ?yss)
      = drop (4 * k) (drop (\<Sum>j<i. length (?yss ! j)) (concat ?yss))"
    unfolding off by (simp add: add.commute)
  also have "drop (\<Sum>j<i. length (?yss ! j)) (concat ?yss) = concat (drop i ?yss)"
    by (rule drop_concat_prefix) (use assms(1) in simp)
  also have "drop i ?yss = ?F (xss ! i) # drop (Suc i) ?yss"
    using assms(1) by (simp add: Cons_nth_drop_Suc[symmetric] drop_map)
  also have "drop (4 * k) (concat (?F (xss ! i) # drop (Suc i) ?yss))
      = drop (4 * k) (?F (xss ! i)) @ concat (drop (Suc i) ?yss)"
    using assms(2) by (simp add: length_channel_floats)
  also have "drop (4 * k) (?F (xss ! i)) = concat (map detection_floats (drop k (xss ! i)))"
    by (rule drop_concat_map_fixed) (simp add: length_detection_floats)
  also have "drop k (xss ! i) = xss ! i ! k # drop (Suc k) (xss ! i)"
    using assms(2) by (simp add: Cons_nth_drop_Suc)
  finally show ?thesis
    by (simp add: length_detection_floats)
qed

lemma unat_of_nat_channel: "i < unat (N :: uint32) \<Longrightarrow> unat (of_nat i :: uint32) = i"
proof -
  assume "i < unat N"
  moreover have "unat N < 2 ^ 32" using unsigned_less[of N] by simp
  ultimately have "i < 2 ^ LENGTH(32)" by simp
  then show ?thesis by (intro of_nat_inverse[OF refl])
qed

lemma count_appends:
  assumes "\<forall>a\<in>set aps. fst a < N"
  shows "(\<Sum>i<unat N. length (channel_detections aps (of_nat i :: uint32))) = length aps"
  using assms
proof (induction aps)
  case Nil
  then show ?case by (simp add: channel_detections_def)
next
  case (Cons a aps)
  have lt: "unat (fst a) < unat N" using Cons.prems by (simp add: word_less_nat_alt)
  have eq: "fst a = (of_nat i :: uint32) \<longleftrightarrow> i = unat (fst a)" if "i < unat N" for i
    using unat_of_nat_channel[OF that] by auto
  have "(\<Sum>i<unat N. length (channel_detections (a # aps) (of_nat i :: uint32)))
      = (\<Sum>i<unat N. (if i = unat (fst a) then 1 else 0) + length (channel_detections aps (of_nat i :: uint32)))"
    by (rule sum.cong) (simp_all add: channel_detections_Cons eq)
  also have "\<dots> = (\<Sum>i<unat N. if i = unat (fst a) then 1 else 0)
                   + (\<Sum>i<unat N. length (channel_detections aps (of_nat i :: uint32)))"
    by (rule sum.distrib)
  also have "(\<Sum>i<unat N. if i = unat (fst a) then 1 else 0) = (1::nat)"
    using lt by simp
  also have "(\<Sum>i<unat N. length (channel_detections aps (of_nat i :: uint32))) = length aps"
    using Cons.prems by (intro Cons.IH) simp
  finally show ?case by simp
qed

text \<open>
  Claim C3. Let \<^verbatim>\<open>Reset\<close> be called in any state of an accumulator, followed by calls
  among which there is no further \<^verbatim>\<open>Reset\<close> and whose appends all go to channels below
  the channel count. Then \<^verbatim>\<open>SaveDetections\<close> has a defined result, in which the flat buffer
  has 4 floats per append; it is the concatenation, over the channels in ascending order, of
  the \<open>x\<close>, \<open>y\<close>, \<open>z\<close>, \<open>intensity\<close> of the channel's detections in append order; and
  the \<open>k\<close>-th record of channel \<open>c\<close> starts at float offset 4 times the number of
  appends to the channels below \<open>c\<close>, plus \<open>4 * k\<close>.
\<close>

theorem consolidated_layout:
  assumes "run cs0 (LidarData_ctor N) = Some d0"
    and "\<forall>c\<in>set cs. \<not> is_Reset c"
    and "\<forall>a\<in>set (appends_of cs). fst a < N"
  shows "\<exists>d. run (CallReset h # cs @ [CallSaveDetections]) d0 = Some d \<and>
     length (points d) = 4 * length (appends_of cs) \<and>
     points d = concat (map (\<lambda>i. concat (map detection_floats
                   (channel_detections (appends_of cs) (of_nat i)))) [0..<unat N]) \<and>
     (\<forall>c<N. \<forall>k<length (channel_detections (appends_of cs) c).
        take 4 (drop (4 * (\<Sum>j<unat c. length (channel_detections (appends_of cs) (of_nat j))) + 4 * k)
                  (points d))
          = detection_floats (channel_detections (appends_of cs) c ! k))"
proof -
  let ?aps = "appends_of cs"
  let ?F = "\<lambda>ch. concat (map detection_floats ch)"
  let ?xss = "map (\<lambda>i. channel_detections ?aps (of_nat i :: uint32)) [0..<unat N]"
  have inv0: "lidar_inv N d0" using assms(1) by (rule run_reachable_inv)
  let ?d1 = "d0\<lparr>header := take 2 (header d0) @ replicate (unat N) 0,
                 max_channel_points := Some h, aux_points := replicate (unat N) []\<rparr>"
  have r1: "Reset h d0 = Some ?d1" using inv0 by (rule Reset_closed)
  have inv1: "lidar_inv N ?d1" using inv0 r1 by (rule lidar_inv_Reset)
  have "\<exists>d'. run cs ?d1 = Some d' \<and> lidar_inv N d' \<and> length (aux_points d') = unat N \<and>
           (\<forall>c<N. aux_points d' ! unat c = aux_points ?d1 ! unat c @ channel_detections ?aps c)"
    using inv1 _ assms(2,3) by (rule run_appends) simp
  then obtain d2 where r2: "run cs ?d1 = Some d2" and inv2: "lidar_inv N d2"
    and len2: "length (aux_points d2) = unat N"
    and nth2: "\<forall>c<N. aux_points d2 ! unat c = aux_points ?d1 ! unat c @ channel_detections ?aps c"
    by blast
  have aux2: "aux_points d2 = ?xss"
  proof (rule nth_equalityI)
    show "length (aux_points d2) = length ?xss" using len2 by simp
  next
    fix i assume "i < length (aux_points d2)"
    then have i: "i < unat N" using len2 by simp
    then have u: "unat (of_nat i :: uint32) = i" by (rule unat_of_nat_channel)
    then have "(of_nat i :: uint32) < N" using i by (simp add: word_less_nat_alt)
    then have "aux_points d2 ! unat (of_nat i :: uint32)
        = aux_points ?d1 ! unat (of_nat i :: uint32) @ channel_detections ?aps (of_nat i)"
      using nth2 by blast
    then show "aux_points d2 ! i = ?xss ! i"
      using i u by simp
  qed
  let ?d3 = "d2\<lparr>header := take 2 (header d2) @ replicate (unat N) N,
                 points := concat (map ?F (aux_points d2))\<rparr>"
  have r3: "SaveDetections d2 = Some ?d3" using inv2 len2 by (rule SaveDetections_closed)
  have run: "run (CallReset h # cs @ [CallSaveDetections]) d0 = Some ?d3"
    by (simp add: r1 run_append r2 r3)
  have pts: "points ?d3 = concat (map ?F ?xss)" by (simp add: aux2)
  have valid: "\<forall>a\<in>set ?aps. fst a < N" using assms(3) .
  have "length (concat (map ?F ?xss)) = 4 * sum_list (map length ?xss)"
    by (rule length_concat_channels)
  also have "sum_list (map length ?xss) = (\<Sum>i<unat N. length (channel_detections ?aps (of_nat i :: uint32)))"
    by (simp add: comp_def interv_sum_list_conv_sum_set_nat atLeast0LessThan)
  also have "\<dots> = length ?aps"
    using valid by (rule count_appends)
  finally have len: "length (points ?d3) = 4 * length ?aps"
    using pts by simp
  have rec: "take 4 (drop (4 * (\<Sum>j<unat c. length (channel_detections ?aps (of_nat j :: uint32))) + 4 * k)
                  (points ?d3)) = detection_floats (channel_detections ?aps c ! k)"
    if c: "c < N" and k: "k < length (channel_detections ?aps c)" for c k
  proof -
    have i: "unat c < length ?xss" using c by (simp add: word_less_nat_alt)
    have xi: "?xss ! unat c = channel_detections ?aps c"
      using i by simp
    have lo: "(\<Sum>j<unat c. length (?xss ! j)) = (\<Sum>j<unat c. length (channel_detections ?aps (of_nat j :: uint32)))"
      using i by (intro sum.cong) simp_all
    have "take 4 (drop (4 * (\<Sum>j<unat c. length (?xss ! j)) + 4 * k) (concat (map ?F ?xss)))
        = detection_floats (?xss ! unat c ! k)"
      using i k xi by (intro nth_record_of_concat) simp_all
    then show ?thesis
      unfolding lo xi pts .
  qed
  have pts': "points ?d3 = concat (map (\<lambda>i. ?F (channel_detections ?aps (of_nat i :: uint32))) [0..<unat N])"
    using pts by (simp add: comp_def)
  show ?thesis
  proof (intro exI[of _ ?d3] conjI allI impI)
    show "run (CallReset h # cs @ [CallSaveDetections]) d0 = Some ?d3" by (rule run)
    show "length (points ?d3) = 4 * length ?aps" by (rule len)
    show "points ?d3 = concat (map (\<lambda>i. ?F (channel_detections ?aps (of_nat i :: uint32))) [0..<unat N])"
      by (rule pts')
    fix c k
    assume "c < N" and "k < length (channel_detections ?aps c)"
    then show "take 4 (drop (4 * (\<Sum>j<unat c. length (channel_detections ?aps (of_nat j :: uint32))) + 4 * k)
                  (points ?d3)) = detection_floats (channel_detections ?aps c ! k)"
      by (rule rec)
  qed
qed

theorem consolidated_layout_witness:
  "run [] (LidarData_ctor 2) = Some (LidarData_ctor 2) \<and>
   list_all (\<lambda>c. \<not> is_Reset c) scenario_appends \<and>
   list_all (\<lambda>a. fst a < 2) (appends_of scenario_appends) \<and>
   (\<exists>d. run scenario_calls (LidarData_ctor 2) = Some d \<and>
        length (points d) = 12 \<and>
        points d = [0x3F800000, 0x40000000, 0x40400000, 0x3F000000,
                    0x40E00000, 0x41000000, 0x41100000, 0x3DCCCCCD,
                    0x40800000, 0x40A00000, 0x40C00000, 0x3F666666])"
proof -
  have h1: "run [] (LidarData_ctor 2) = Some (LidarData_ctor 2)" by simp
  have h2: "\<forall>c\<in>set scenario_appends. \<not> is_Reset c" by (simp add: scenario_appends_def)
  have h3: "\<forall>a\<in>set (appends_of scenario_appends). fst a < 2" by (simp add: scenario_appends_def)
  from consolidated_layout[OF h1 h2 h3, of 10] obtain d
    where r: "run (CallReset 10 # scenario_appends @ [CallSaveDetections]) (LidarData_ctor 2) = Some d"
      and l: "length (points d) = 4 * length (appends_of scenario_appends)"
      and p: "points d = concat (map (\<lambda>i. concat (map detection_floats
                   (channel_detections (appends_of scenario_appends) (of_nat i)))) [0..<unat (2::uint32)])"
    by blast
  have "4 * length (appends_of scenario_appends) = 12" by (simp add: scenario_appends_def)
  moreover have "concat (map (\<lambda>i. concat (map detection_floats
                   (channel_detections (appends_of scenario_appends) (of_nat i)))) [0..<unat (2::uint32)])
      = [0x3F800000, 0x40000000, 0x40400000, 0x3F000000,
                    0x40E00000, 0x41000000, 0x41100000, 0x3DCCCCCD,
                    0x40800000, 0x40A00000, 0x40C00000, 0x3F666666]"
    by code_simp
  ultimately show ?thesis
    using h1 h2 h3 r l p unfolding scenario_calls_def by (auto simp: list_all_iff)
qed

subsection \<open>The per-channel counts of the header\<close>

text \<open>
  Once the staging array has its \<open>N\<close> buffers, \<^verbatim>\<open>SaveDetections\<close> sets every count word to
  \<open>N\<close>, whatever the staging buffers hold.
\<close>

lemma SaveDetections_channel_counts:
  assumes "lidar_inv N d" and "length (aux_points d) = unat N"
  shows "\<exists>d'. SaveDetections d = Some d' \<and> channel_counts d' = replicate (unat N) N"
proof -
  have "length (header d) = 2 + unat N" using assms(1) by (simp add: lidar_inv_def)
  then show ?thesis
    by (simp add: SaveDetections_closed[OF assms] channel_counts_def)
qed

text \<open>
  Claim C1. The header layout documented in the class comment has the point count of
  channel \<open>i\<close> in word \<open>2 + i\<close>. \<^verbatim>\<open>SaveDetections\<close> writes \<^verbatim>\<open>_aux_points.size()\<close>, the
  number of staging buffers, into each of these words instead of
  \<^verbatim>\<open>_aux_points[idxChannel].size()\<close>. In the scenario the staging buffers hold 2 and 1
  detections, and the count words are 2 and 2.
\<close>

theorem scenario_header_counts:
  "map_option (\<lambda>d. (map length (aux_points d), channel_counts d)) (run scenario_calls (LidarData_ctor 2))
     = Some ([2, 1], [2, 2])"
  by code_simp

text \<open>
  Claim C2. In the same scenario the flat buffer has 12 floats, while 4 times the sum of
  the count words of the header is 16.
\<close>

theorem scenario_flat_length:
  "map_option (\<lambda>d. (length (points d), 4 * sum_list (map unat (channel_counts d))))
     (run scenario_calls (LidarData_ctor 2)) = Some (12, 16)"
  by code_simp

section \<open>Text export\<close>

lemma fields_no_separator: "c \<notin> set u \<Longrightarrow> fields c u = [u]"
  by (induction u) auto

lemma fields_separator: "c \<notin> set u \<Longrightarrow> fields c (u @ c # rest) = u # fields c rest"
  by (induction u) auto

text \<open>
  Claim C9. \<^verbatim>\<open>WriteDetection\<close> appends to the stream the renderings of \<open>x\<close>, \<open>y\<close>,
  \<open>z\<close> and \<open>intensity\<close>, in this order, with one space between two of them and nothing
  after the last. When no rendering contains a space, the text written has exactly these
  four fields.
\<close>

theorem WriteDetection_text:
  "WriteDetection fmt det out =
     out @ fmt (loc_x (point det)) @ '' '' @ fmt (loc_y (point det)) @ '' '' @
       fmt (loc_z (point det)) @ '' '' @ fmt (intensity det) \<and>
   ((\<forall>v. CHR '' '' \<notin> set (fmt v)) \<longrightarrow>
      fields CHR '' '' (WriteDetection fmt det []) =
        [fmt (loc_x (point det)), fmt (loc_y (point det)), fmt (loc_z (point det)), fmt (intensity det)])"
  by (simp add: WriteDetection_def put_float_def put_char_def fields_no_separator fields_separator)

theorem WriteDetection_text_witness:
  "(\<forall>v. CHR '' '' \<notin> set ((\<lambda>v::float32. if v = 0 then ''0'' else ''x'') v)) \<and>
   fields CHR '' '' (WriteDetection (\<lambda>v. if v = 0 then ''0'' else ''x'')
       \<lparr>point = \<lparr>loc_x = 0, loc_y = 1, loc_z = 0\<rparr>, intensity = 1\<rparr> []) = [''0'', ''x'', ''0'', ''x''] \<and>
   WriteDetection (\<lambda>v. if v = 0 then ''0'' else ''x'')
       \<lparr>point = \<lparr>loc_x = 0, loc_y = 1, loc_z = 0\<rparr>, intensity = 1\<rparr> ''p '' = ''p 0 x 0 x''"
proof -
  let ?fmt = "\<lambda>v::float32. if v = 0 then ''0'' else ''x''"
  have h: "\<forall>v. CHR '' '' \<notin> set (?fmt v)" by simp
  show ?thesis
    using h WriteDetection_text[of ?fmt "\<lparr>point = \<lparr>loc_x = 0, loc_y = 1, loc_z = 0\<rparr>, intensity = 1\<rparr>" "[]"]
      WriteDetection_text[of ?fmt "\<lparr>point = \<lparr>loc_x = 0, loc_y = 1, loc_z = 0\<rparr>, intensity = 1\<rparr>" "''p ''"]
    by simp
qed

end
